theory Spec2Isabelle
  imports Complex_Main "HOL-Library.Sublist"
begin

section \<open>Strings and character classes\<close>

text \<open>
  The program is \<^verbatim>\<open>src/Analysis.py\<close>. A Python \<^verbatim>\<open>str\<close> is a sequence of code points;
  here it is a \<^typ>\<open>string\<close> whose characters are the code points 0..255, so that
  \<^const>\<open>length\<close> is Python's \<^verbatim>\<open>len\<close>. The character classes that the source reaches
  through \<^verbatim>\<open>str.lower\<close>, \<^verbatim>\<open>str.split\<close>, \<^verbatim>\<open>str.strip\<close> and the \<^verbatim>\<open>re\<close> classes
  \<^verbatim>\<open>\s\<close>, \<^verbatim>\<open>\d\<close>, \<^verbatim>\<open>\w\<close> are written out for that range as CPython defines them.
\<close>

definition code :: "char \<Rightarrow> nat" where
  "code c = of_char c"

text \<open>\<^verbatim>\<open>str.isspace\<close>, which is also the class \<^verbatim>\<open>\s\<close> of \<^verbatim>\<open>re\<close> on a \<^verbatim>\<open>str\<close> pattern.\<close>

definition is_space :: "char \<Rightarrow> bool" where
  "is_space c = ((9 \<le> code c \<and> code c \<le> 13) \<or> (28 \<le> code c \<and> code c \<le> 32)
     \<or> code c = 133 \<or> code c = 160)"

text \<open>The class \<^verbatim>\<open>\d\<close>: the decimal digits.\<close>

definition is_digit :: "char \<Rightarrow> bool" where
  "is_digit c = (48 \<le> code c \<and> code c \<le> 57)"

text \<open>The class \<^verbatim>\<open>[a-z0-9]\<close>.\<close>

definition is_lower_alnum :: "char \<Rightarrow> bool" where
  "is_lower_alnum c = ((97 \<le> code c \<and> code c \<le> 122) \<or> (48 \<le> code c \<and> code c \<le> 57))"

text \<open>The class \<^verbatim>\<open>\w\<close>: \<^verbatim>\<open>str.isalnum\<close> or the underscore.\<close>

definition is_word_char :: "char \<Rightarrow> bool" where
  "is_word_char c = ((48 \<le> code c \<and> code c \<le> 57) \<or> (65 \<le> code c \<and> code c \<le> 90)
     \<or> code c = 95 \<or> (97 \<le> code c \<and> code c \<le> 122)
     \<or> code c = 170 \<or> code c = 178 \<or> code c = 179 \<or> code c = 181
     \<or> code c = 185 \<or> code c = 186 \<or> (188 \<le> code c \<and> code c \<le> 190)
     \<or> (192 \<le> code c \<and> code c \<le> 214) \<or> (216 \<le> code c \<and> code c \<le> 246)
     \<or> (248 \<le> code c \<and> code c \<le> 255))"

text \<open>\<^verbatim>\<open>str.lower\<close> on one character: A-Z and the upper-case letters of 192..222.\<close>

definition lower_char :: "char \<Rightarrow> char" where
  "lower_char c =
     (if (65 \<le> code c \<and> code c \<le> 90) \<or> (192 \<le> code c \<and> code c \<le> 222 \<and> code c \<noteq> 215)
      then char_of (code c + 32) else c)"

definition lower :: "string \<Rightarrow> string" where
  "lower text = map lower_char text"

text \<open>
  \<^verbatim>\<open>text.replace(old, new)\<close>: the occurrences of \<^verbatim>\<open>old\<close> are found from left to right
  and do not overlap. For an empty \<^verbatim>\<open>old\<close> Python puts \<^verbatim>\<open>new\<close> before every character
  and at the end.
\<close>

function py_replace :: "string \<Rightarrow> string \<Rightarrow> string \<Rightarrow> string" where
  "py_replace old new text =
     (if old = [] then new @ concat (map (\<lambda>c. c # new) text)
      else if text = [] then []
      else if prefix old text then new @ py_replace old new (drop (length old) text)
      else hd text # py_replace old new (tl text))"
  by pat_completeness auto
termination
  by (relation "measure (\<lambda>(old, new, text). length text)") auto

text \<open>\<^verbatim>\<open>re.sub(r'[^a-z0-9\s]', ' ', text)\<close>: the pattern matches one character at a time.\<close>

definition sub_non_alnum :: "string \<Rightarrow> string" where
  "sub_non_alnum text = map (\<lambda>c. if is_lower_alnum c \<or> is_space c then c else CHR '' '') text"

text \<open>\<^verbatim>\<open>text.split()\<close>: the maximal runs of characters that are not whitespace.\<close>

function py_split :: "string \<Rightarrow> string list" where
  "py_split text =
     (let rest = dropWhile is_space text in
      if rest = [] then []
      else takeWhile (\<lambda>c. \<not> is_space c) rest # py_split (dropWhile (\<lambda>c. \<not> is_space c) rest))"
  by pat_completeness auto
termination
proof (relation "measure length")
  fix s rest :: string
  assume r: "rest = dropWhile is_space s" and ne: "rest \<noteq> []"
  from ne obtain c cs where rc: "rest = c # cs" by (cases rest) auto
  with r have "\<not> is_space c" by (metis hd_dropWhile list.sel(1) ne)
  then have "length (dropWhile (\<lambda>c. \<not> is_space c) rest) \<le> length cs"
    using rc by (simp add: length_dropWhile_le)
  moreover have "length rest \<le> length s"
    using r by (simp add: length_dropWhile_le)
  ultimately show "(dropWhile (\<lambda>c. \<not> is_space c) rest, s) \<in> measure length"
    using rc by simp
qed simp

text \<open>\<^verbatim>\<open>sep.join(words)\<close>.\<close>

fun py_join :: "string \<Rightarrow> string list \<Rightarrow> string" where
  "py_join sep [] = []"
| "py_join sep [w] = w"
| "py_join sep (w # v # ws) = w @ sep @ py_join sep (v # ws)"

section \<open>Text normalizer\<close>

definition normalize_text :: "string \<Rightarrow> string" where
  "normalize_text text =
     py_join '' '' (py_split (sub_non_alnum (py_replace ''.pdf'' [] (lower text))))"

text \<open>\<^verbatim>\<open>text.strip()\<close>: whitespace is removed at both ends.\<close>

definition rstrip :: "string \<Rightarrow> string" where
  "rstrip text = rev (dropWhile is_space (rev text))"

definition py_strip :: "string \<Rightarrow> string" where
  "py_strip text = rstrip (dropWhile is_space text)"

subsection \<open>The normalizer as the specification words it\<close>

text \<open>
  The specification describes the normalizer in five steps: lower-case, strip a literal
  \<^verbatim>\<open>.pdf\<close> suffix, replace every character outside \<^verbatim>\<open>[a-z0-9\s]\<close> with a space,
  collapse every run of whitespace to one space, trim. \<open>normalize_ref\<close> follows these
  words; \<open>normalize_ref_all\<close> differs in the second step only, where it removes every
  occurrence of \<^verbatim>\<open>.pdf\<close>.
\<close>

definition strip_suffix :: "string \<Rightarrow> string \<Rightarrow> string" where
  "strip_suffix suf text =
     (if suffix suf text then take (length text - length suf) text else text)"

function collapse_ws :: "string \<Rightarrow> string" where
  "collapse_ws [] = []"
| "collapse_ws (c # cs) =
     (if is_space c then CHR '' '' # collapse_ws (dropWhile is_space cs) else c # collapse_ws cs)"
  by pat_completeness auto
termination
  by (relation "measure length") (auto simp: length_dropWhile_le less_Suc_eq_le)

definition normalize_ref :: "string \<Rightarrow> string" where
  "normalize_ref text =
     py_strip (collapse_ws (sub_non_alnum (strip_suffix ''.pdf'' (lower text))))"

definition normalize_ref_all :: "string \<Rightarrow> string" where
  "normalize_ref_all text =
     py_strip (collapse_ws (sub_non_alnum (py_replace ''.pdf'' [] (lower text))))"

text \<open>Words of lower-case letters and digits, none of them empty.\<close>

definition clean_words :: "string list \<Rightarrow> bool" where
  "clean_words ws = (\<forall>w\<in>set ws. w \<noteq> [] \<and> (\<forall>c\<in>set w. is_lower_alnum c))"

text \<open>Two spaces next to each other somewhere in the string.\<close>

fun adjacent_spaces :: "string \<Rightarrow> bool" where
  "adjacent_spaces (a # b # r) = ((a = CHR '' '' \<and> b = CHR '' '') \<or> adjacent_spaces (b # r))"
| "adjacent_spaces _ = False"

section \<open>Year extraction\<close>

text \<open>
  \<^verbatim>\<open>re.search(r'\b(19|20)\d{2}\b', text)\<close>. The search tries every start position from
  the left; \<open>prev\<close> is the character before the position (\<open>None\<close> at the start of the
  text). \<^verbatim>\<open>\b\<close> holds between two positions of which exactly one is a word character.
\<close>

definition word_boundary :: "char option \<Rightarrow> char option \<Rightarrow> bool" where
  "word_boundary prev nxt =
     ((case prev of None \<Rightarrow> False | Some c \<Rightarrow> is_word_char c)
      \<noteq> (case nxt of None \<Rightarrow> False | Some c \<Rightarrow> is_word_char c))"

definition next_char :: "string \<Rightarrow> char option" where
  "next_char s = (case s of [] \<Rightarrow> None | c # _ \<Rightarrow> Some c)"

fun match_year :: "char option \<Rightarrow> string \<Rightarrow> bool" where
  "match_year prev (a # b # c # d # rest) =
     (word_boundary prev (Some a) \<and> ([a, b] = ''19'' \<or> [a, b] = ''20'')
      \<and> is_digit c \<and> is_digit d \<and> word_boundary (Some d) (next_char rest))"
| "match_year prev _ = False"

fun re_search_year :: "char option \<Rightarrow> string \<Rightarrow> string option" where
  "re_search_year prev [] = None"
| "re_search_year prev (c # cs) =
     (if match_year prev (c # cs) then Some (take 4 (c # cs)) else re_search_year (Some c) cs)"

definition extract_year :: "string \<Rightarrow> string option" where
  "extract_year text = re_search_year None text"

text \<open>A year token: four characters, \<^verbatim>\<open>19\<close> or \<^verbatim>\<open>20\<close> and two digits.\<close>

definition year_token :: "string \<Rightarrow> bool" where
  "year_token y = (length y = 4 \<and> (take 2 y = ''19'' \<or> take 2 y = ''20'')
     \<and> is_digit (y ! 2) \<and> is_digit (y ! 3))"

text \<open>
  A year token stands at index \<open>i\<close> of \<open>t\<close> with no word character (letter, digit or
  underscore) directly before or after it.
\<close>

definition year_at :: "string \<Rightarrow> nat \<Rightarrow> bool" where
  "year_at t i = (i + 4 \<le> length t \<and> year_token (take 4 (drop i t))
     \<and> (i = 0 \<or> \<not> is_word_char (t ! (i - 1)))
     \<and> (i + 4 = length t \<or> \<not> is_word_char (t ! (i + 4))))"

text \<open>The same at the start of the rest of a text, \<open>prev\<close> being the character before.\<close>

definition year_here :: "char option \<Rightarrow> string \<Rightarrow> bool" where
  "year_here prev s = (4 \<le> length s \<and> year_token (take 4 s)
     \<and> (case prev of None \<Rightarrow> True | Some p \<Rightarrow> \<not> is_word_char p)
     \<and> (4 = length s \<or> \<not> is_word_char (s ! 4)))"

definition year_from :: "char option \<Rightarrow> string \<Rightarrow> nat \<Rightarrow> bool" where
  "year_from prev s i =
     (case i of 0 \<Rightarrow> year_here prev s | Suc j \<Rightarrow> year_here (Some (s ! j)) (drop i s))"

section \<open>Matcher\<close>

text \<open>
  \<^verbatim>\<open>fuzz.token_set_ratio\<close> and \<^verbatim>\<open>fuzz.partial_ratio\<close> belong to the library
  \<^verbatim>\<open>thefuzz\<close>, not to this program: they are parameters of the model, functions from
  two strings to an integer score.

  \<^verbatim>\<open>final_score\<close> and \<^verbatim>\<open>best_score\<close> are Python floats once the bonus
  \<^verbatim>\<open>len(clean_file) / 1000.0\<close> is added. The model computes them as exact rationals.
  Every value is an integer plus a multiple of 1/1000; for integer scores and lengths far
  below \<open>2^53\<close> the rounding error of the two double operations is many orders of magnitude
  below 1/1000, so \<^verbatim>\<open>int(...)\<close> gives the same integer on the double as on the rational.
  The results below do not depend on how two candidates of equal exact score compare.
\<close>

type_synonym scorer = "string \<Rightarrow> string \<Rightarrow> int"

text \<open>Truth value of an optional string: \<^verbatim>\<open>None\<close> and the empty string are false.\<close>

definition truthy :: "string option \<Rightarrow> bool" where
  "truthy v = (case v of None \<Rightarrow> False | Some s \<Rightarrow> s \<noteq> [])"

text \<open>\<^verbatim>\<open>sheet_year and file_year and sheet_year != file_year\<close>\<close>

definition year_guardrail :: "string option \<Rightarrow> string option \<Rightarrow> bool" where
  "year_guardrail sheet_year file_year =
     (truthy sheet_year \<and> truthy file_year \<and> sheet_year \<noteq> file_year)"

text \<open>\<^verbatim>\<open>final_score\<close> before the tie-breaker is added.\<close>

definition similarity :: "scorer \<Rightarrow> scorer \<Rightarrow> string \<Rightarrow> string \<Rightarrow> int" where
  "similarity token_set_ratio partial_ratio clean_sheet clean_file =
     (let base_score = token_set_ratio clean_sheet clean_file;
          partial_score = partial_ratio clean_sheet clean_file
      in if length clean_file > 15 then max base_score partial_score else base_score)"

text \<open>\<^verbatim>\<open>len(clean_file) / 1000.0\<close>\<close>

definition tie_bonus :: "string \<Rightarrow> rat" where
  "tie_bonus clean_file = of_nat (length clean_file) / 1000"

text \<open>\<^verbatim>\<open>int(x)\<close> on a float: truncation towards zero.\<close>

definition py_int :: "rat \<Rightarrow> int" where
  "py_int x = (if 0 \<le> x then \<lfloor>x\<rfloor> else \<lceil>x\<rceil>)"

text \<open>One round of the loop over \<^verbatim>\<open>local_files\<close>; the state is \<^verbatim>\<open>(best_file, best_score)\<close>.\<close>

definition match_step ::
  "scorer \<Rightarrow> scorer \<Rightarrow> string \<Rightarrow> string option \<Rightarrow> string option \<times> rat \<Rightarrow> string
     \<Rightarrow> string option \<times> rat" where
  "match_step token_set_ratio partial_ratio clean_sheet sheet_year best file_name =
     (let clean_file = normalize_text file_name;
          file_year = extract_year file_name
      in if year_guardrail sheet_year file_year then best
         else let final_score =
                    of_int (similarity token_set_ratio partial_ratio clean_sheet clean_file)
                    + tie_bonus clean_file
              in if final_score > snd best then (Some file_name, final_score) else best)"

definition find_best_local_match ::
  "scorer \<Rightarrow> scorer \<Rightarrow> string \<Rightarrow> string list \<Rightarrow> string option \<times> int" where
  "find_best_local_match token_set_ratio partial_ratio sheet_name_str local_files =
     (let clean_sheet = normalize_text sheet_name_str;
          sheet_year = extract_year sheet_name_str;
          best = foldl (match_step token_set_ratio partial_ratio clean_sheet sheet_year)
                   (None, - 1) local_files
      in (fst best, min (py_int (snd best)) 100))"

text \<open>The clamp of an integer to the range 0..100.\<close>

definition clamp_0_100 :: "int \<Rightarrow> int" where
  "clamp_0_100 n = max 0 (min n 100)"

text \<open>A scorer to run the matcher on concrete inputs: 100 for equal strings, 50 otherwise.\<close>

definition stub_ratio :: scorer where
  "stub_ratio a b = (if a = b then 100 else 50)"

text \<open>
  What holds of \<^verbatim>\<open>(best_file, best_score)\<close> after every round of the loop: without a
  file the score is the initial \<open>- 1\<close>; with a file, the file passed the guardrail and the
  score is that file's similarity plus its tie-breaker, above \<open>- 1\<close>.
\<close>

definition match_inv ::
  "scorer \<Rightarrow> scorer \<Rightarrow> string \<Rightarrow> string option \<Rightarrow> string option \<times> rat \<Rightarrow> bool" where
  "match_inv token_set_ratio partial_ratio clean_sheet sheet_year best =
     (case fst best of
        None \<Rightarrow> snd best = - 1
      | Some g \<Rightarrow> \<not> year_guardrail sheet_year (extract_year g) \<and> - 1 < snd best \<and>
          snd best = of_int (similarity token_set_ratio partial_ratio clean_sheet (normalize_text g))
                     + tie_bonus (normalize_text g))"

section \<open>Result parsing in \<^verbatim>\<open>save_results\<close>\<close>

text \<open>
  The part of \<^verbatim>\<open>save_results\<close> from the downloaded \<^verbatim>\<open>output_text\<close> to the rows
  handed to the CSV writer. \<^verbatim>\<open>json.loads\<close> and \<^verbatim>\<open>int\<close> belong to Python, not to this
  program: they are parameters of the model, \<open>None\<close> standing for the exception they
  raise (\<^verbatim>\<open>JSONDecodeError\<close>, \<^verbatim>\<open>ValueError\<close>).

  A decoded JSON value is a \<open>json\<close>; an object is the list of the items of the Python
  dict, each key once. The numbers are never looked into.
\<close>

datatype json =
    JNull
  | JBool bool
  | JInt int
  | JFloat string
  | JStr string
  | JArr "json list"
  | JObj "(string \<times> json) list"

datatype py_exc = JSONDecodeError | AttributeError | TypeError | KeyError | IndexError | ValueError

text \<open>Sequencing inside the \<^verbatim>\<open>try\<close> block: the first exception ends it.\<close>

definition and_then :: "py_exc + 'a \<Rightarrow> ('a \<Rightarrow> py_exc + 'b) \<Rightarrow> py_exc + 'b" where
  "and_then m f = (case m of Inl e \<Rightarrow> Inl e | Inr v \<Rightarrow> f v)"

definition json_loads :: "(string \<Rightarrow> json option) \<Rightarrow> string \<Rightarrow> py_exc + json" where
  "json_loads loads s = (case loads s of None \<Rightarrow> Inl JSONDecodeError | Some v \<Rightarrow> Inr v)"

definition int_of_str :: "(string \<Rightarrow> int option) \<Rightarrow> string \<Rightarrow> py_exc + int" where
  "int_of_str to_int s = (case to_int s of None \<Rightarrow> Inl ValueError | Some n \<Rightarrow> Inr n)"

text \<open>\<^verbatim>\<open>x.get(key)\<close>: only a dict has the method.\<close>

fun dict_get :: "json \<Rightarrow> string \<Rightarrow> py_exc + json" where
  "dict_get (JObj kvs) key = Inr (case map_of kvs key of None \<Rightarrow> JNull | Some v \<Rightarrow> v)"
| "dict_get _ key = Inl AttributeError"

text \<open>\<^verbatim>\<open>key in x\<close>: a key of a dict, an element of a list, a substring of a string.\<close>

fun py_contains :: "string \<Rightarrow> json \<Rightarrow> py_exc + bool" where
  "py_contains key (JObj kvs) = Inr (key \<in> set (map fst kvs))"
| "py_contains key (JArr xs) = Inr (JStr key \<in> set xs)"
| "py_contains key (JStr s) = Inr (sublist key s)"
| "py_contains key _ = Inl TypeError"

text \<open>\<^verbatim>\<open>x[key]\<close> with a string key.\<close>

fun getitem_key :: "json \<Rightarrow> string \<Rightarrow> py_exc + json" where
  "getitem_key (JObj kvs) key = (case map_of kvs key of None \<Rightarrow> Inl KeyError | Some v \<Rightarrow> Inr v)"
| "getitem_key _ key = Inl TypeError"

text \<open>\<^verbatim>\<open>x[0]\<close>: a list or a string gives its first element, a dict has no key 0.\<close>

fun getitem_0 :: "json \<Rightarrow> py_exc + json" where
  "getitem_0 (JArr []) = Inl IndexError"
| "getitem_0 (JArr (v # _)) = Inr v"
| "getitem_0 (JStr []) = Inl IndexError"
| "getitem_0 (JStr (c # _)) = Inr (JStr [c])"
| "getitem_0 (JObj _) = Inl KeyError"
| "getitem_0 _ = Inl TypeError"

text \<open>
  \<^verbatim>\<open>text.split(sep, 1)\<close> for a separator that is not empty: the text is cut at the first
  occurrence of the separator.
\<close>

fun split_first :: "string \<Rightarrow> string \<Rightarrow> (string \<times> string) option" where
  "split_first sep [] = None"
| "split_first sep (c # cs) =
     (if prefix sep (c # cs) then Some ([], drop (length sep) (c # cs))
      else map_option (\<lambda>(a, b). (c # a, b)) (split_first sep cs))"

definition py_split_once :: "string \<Rightarrow> string \<Rightarrow> string list" where
  "py_split_once sep text = (case split_first sep text of None \<Rightarrow> [text] | Some (a, b) \<Rightarrow> [a, b])"

text \<open>\<^verbatim>\<open>custom_id.split("::", 1)\<close>: only a string has the method.\<close>

fun split_custom_id :: "json \<Rightarrow> py_exc + string list" where
  "split_custom_id (JStr s) = Inr (py_split_once ''::'' s)"
| "split_custom_id _ = Inl AttributeError"

text \<open>\<^verbatim>\<open>candidate.replace("```json", "").replace("```", "").strip()\<close>\<close>

definition strip_fences :: "string \<Rightarrow> string" where
  "strip_fences s = py_strip (py_replace ''```'' [] (py_replace ''```json'' [] s))"

fun clean_candidate :: "json \<Rightarrow> py_exc + string" where
  "clean_candidate (JStr s) = Inr (strip_fences s)"
| "clean_candidate _ = Inl AttributeError"

text \<open>\<^verbatim>\<open>'response' in entry and 'candidates' in entry['response']\<close>\<close>

definition has_candidates :: "json \<Rightarrow> py_exc + bool" where
  "has_candidates entry =
     and_then (py_contains ''response'' entry) (\<lambda>present.
       if present then and_then (getitem_key entry ''response'') (py_contains ''candidates'')
       else Inr False)"

text \<open>\<^verbatim>\<open>entry['response']['candidates'][0]['content']['parts'][0]['text']\<close>\<close>

definition candidate_text :: "json \<Rightarrow> py_exc + json" where
  "candidate_text entry =
     and_then (getitem_key entry ''response'') (\<lambda>response.
     and_then (getitem_key response ''candidates'') (\<lambda>candidates.
     and_then (getitem_0 candidates) (\<lambda>first.
     and_then (getitem_key first ''content'') (\<lambda>content.
     and_then (getitem_key content ''parts'') (\<lambda>parts.
     and_then (getitem_0 parts) (\<lambda>part.
     getitem_key part ''text''))))))"

record result_row =
  Row :: int
  Sheet_Citation_Snippet :: string
  Methodology :: json
  Reason :: json

text \<open>The two messages of the loop: the \<^verbatim>\<open>else\<close> branch and the \<^verbatim>\<open>except\<close> clause.\<close>

datatype diagnostic = GenerationFailed string | ParsingError py_exc

text \<open>
  The body of the \<^verbatim>\<open>try\<close> block for one line: an exception, or the row number of the
  \<^verbatim>\<open>else\<close> branch, or the dict that is appended.
\<close>

definition try_body ::
  "(string \<Rightarrow> json option) \<Rightarrow> (string \<Rightarrow> int option) \<Rightarrow> string \<Rightarrow> py_exc + (string + result_row)" where
  "try_body loads to_int line =
     and_then (json_loads loads line) (\<lambda>entry.
     and_then (dict_get entry ''custom_id'') (\<lambda>custom_id.
     and_then (split_custom_id custom_id) (\<lambda>parts.
       case parts of
         [] \<Rightarrow> Inl IndexError
       | row_num # rest \<Rightarrow>
           let citation_snippet = (case rest of [] \<Rightarrow> [] | s # _ \<Rightarrow> s) in
           and_then (has_candidates entry) (\<lambda>ok.
             if ok then
               and_then (candidate_text entry) (\<lambda>candidate.
               and_then (clean_candidate candidate) (\<lambda>clean_json.
               and_then (json_loads loads clean_json) (\<lambda>data.
               and_then (int_of_str to_int row_num) (\<lambda>row.
               and_then (dict_get data ''methodology'') (\<lambda>methodology.
               and_then (dict_get data ''reason'') (\<lambda>reason.
                 Inr (Inr \<lparr>Row = row, Sheet_Citation_Snippet = citation_snippet,
                            Methodology = methodology, Reason = reason\<rparr>)))))))
             else Inr (Inl row_num)))))"

definition parse_line ::
  "(string \<Rightarrow> json option) \<Rightarrow> (string \<Rightarrow> int option) \<Rightarrow> string \<Rightarrow> diagnostic + result_row" where
  "parse_line loads to_int line =
     (case try_body loads to_int line of
        Inl e \<Rightarrow> Inl (ParsingError e)
      | Inr (Inl row_num) \<Rightarrow> Inl (GenerationFailed row_num)
      | Inr (Inr row) \<Rightarrow> Inr row)"

text \<open>One round of the loop; the state is \<^verbatim>\<open>results_list\<close> and what was printed so far.\<close>

definition parse_step ::
  "(string \<Rightarrow> json option) \<Rightarrow> (string \<Rightarrow> int option) \<Rightarrow> result_row list \<times> diagnostic list
     \<Rightarrow> string \<Rightarrow> result_row list \<times> diagnostic list" where
  "parse_step loads to_int st line =
     (case parse_line loads to_int line of
        Inl d \<Rightarrow> (fst st, snd st @ [d])
      | Inr row \<Rightarrow> (fst st @ [row], snd st))"

definition parse_lines ::
  "(string \<Rightarrow> json option) \<Rightarrow> (string \<Rightarrow> int option) \<Rightarrow> string list
     \<Rightarrow> result_row list \<times> diagnostic list" where
  "parse_lines loads to_int lines = foldl (parse_step loads to_int) ([], []) lines"

text \<open>\<^verbatim>\<open>str.splitlines\<close>: the line breaks of the range 0..255; \<^verbatim>\<open>\r\n\<close> is one break.\<close>

definition is_linebreak :: "char \<Rightarrow> bool" where
  "is_linebreak c = ((10 \<le> code c \<and> code c \<le> 13) \<or> (28 \<le> code c \<and> code c \<le> 30)
     \<or> code c = 133)"

fun splitlines_from :: "string \<Rightarrow> string \<Rightarrow> string list" where
  "splitlines_from acc [] = (if acc = [] then [] else [rev acc])"
| "splitlines_from acc [c] = (if is_linebreak c then [rev acc] else [rev (c # acc)])"
| "splitlines_from acc (c # d # cs) =
     (if code c = 13 \<and> code d = 10 then rev acc # splitlines_from [] cs
      else if is_linebreak c then rev acc # splitlines_from [] (d # cs)
      else splitlines_from (c # acc) (d # cs))"

definition splitlines :: "string \<Rightarrow> string list" where
  "splitlines text = splitlines_from [] text"

text \<open>
  The rows given to \<^verbatim>\<open>writer.writerows\<close>: \<^verbatim>\<open>results_list\<close> after
  \<^verbatim>\<open>results_list.sort(key=lambda x: x["Row"])\<close>, a stable sort.
\<close>

definition save_results_rows ::
  "(string \<Rightarrow> json option) \<Rightarrow> (string \<Rightarrow> int option) \<Rightarrow> string \<Rightarrow> result_row list" where
  "save_results_rows loads to_int output_text =
     sort_key Row (fst (parse_lines loads to_int (splitlines output_text)))"

subsection \<open>A well-formed model response, as the specification words it\<close>

text \<open>
  The response of a line is well-formed when the line decodes, the decoded value has a
  string at \<^verbatim>\<open>response.candidates[0].content.parts[0].text\<close>, and that string, without
  its code-fence markers, decodes to an object. It is absent, blocked or malformed
  otherwise.
\<close>

datatype path_elem = Key string | Index nat

fun json_child :: "path_elem \<Rightarrow> json \<Rightarrow> json option" where
  "json_child (Key k) (JObj kvs) = map_of kvs k"
| "json_child (Index n) (JArr xs) = (if n < length xs then Some (xs ! n) else None)"
| "json_child _ _ = None"

fun json_at :: "path_elem list \<Rightarrow> json \<Rightarrow> json option" where
  "json_at [] v = Some v"
| "json_at (e # p) v = (case json_child e v of None \<Rightarrow> None | Some w \<Rightarrow> json_at p w)"

definition response_text :: "json \<Rightarrow> string option" where
  "response_text entry =
     (case json_at [Key ''response'', Key ''candidates'', Index 0, Key ''content'',
                    Key ''parts'', Index 0, Key ''text''] entry of
        Some (JStr s) \<Rightarrow> Some s
      | _ \<Rightarrow> None)"

definition well_formed_response :: "(string \<Rightarrow> json option) \<Rightarrow> string \<Rightarrow> bool" where
  "well_formed_response loads line =
     (case loads line of
        None \<Rightarrow> False
      | Some entry \<Rightarrow>
          (case response_text entry of
             None \<Rightarrow> False
           | Some s \<Rightarrow> (case loads (strip_fences s) of Some (JObj data) \<Rightarrow> True | _ \<Rightarrow> False)))"

subsection \<open>A decoder and an integer parser for concrete runs\<close>

text \<open>
  Three output lines under short names: rows 7 and 3 carry a response whose text is
  \<^verbatim>\<open>```jsonM1```\<close>, row 5 was blocked. \<open>M1\<close> decodes to the classification object.
\<close>

definition demo_response :: json where
  "demo_response =
     JObj [(''candidates'', JArr [JObj [(''content'',
        JObj [(''parts'', JArr [JObj [(''text'', JStr ''```jsonM1```'')]])])]])]"

definition demo_loads :: "string \<Rightarrow> json option" where
  "demo_loads s =
     (if s = ''L7'' then Some (JObj [(''custom_id'', JStr ''7::Smith''), (''response'', demo_response)])
      else if s = ''L3'' then Some (JObj [(''custom_id'', JStr ''3::Jones''), (''response'', demo_response)])
      else if s = ''L5'' then Some (JObj [(''custom_id'', JStr ''5::Lee''),
                                          (''response'', JObj [(''promptFeedback'', JStr ''BLOCKED'')])])
      else if s = ''M1'' then Some (JObj [(''methodology'', JStr ''Experimental''),
                                          (''reason'', JStr ''Randomised trial'')])
      else None)"

definition demo_int :: "string \<Rightarrow> int option" where
  "demo_int s =
     (if s \<noteq> [] \<and> list_all is_digit s
      then Some (foldl (\<lambda>n c. 10 * n + (int (code c) - 48)) 0 s) else None)"

section \<open>Properties of the text normalizer\<close>

declare py_split.simps [simp del] py_replace.simps [simp del]

subsection \<open>Splitting, joining, collapsing\<close>

lemma py_split_Nil: "dropWhile is_space s = [] \<Longrightarrow> py_split s = []"
  by (subst py_split.simps) simp

lemma py_split_Cons:
  "dropWhile is_space s \<noteq> [] \<Longrightarrow>
   py_split s = takeWhile (\<lambda>c. \<not> is_space c) (dropWhile is_space s)
                # py_split (dropWhile (\<lambda>c. \<not> is_space c) (dropWhile is_space s))"
  by (subst py_split.simps) (simp add: Let_def)

lemma py_split_eq_Nil: "py_split s = [] \<longleftrightarrow> dropWhile is_space s = []"
  by (cases "dropWhile is_space s = []") (simp_all add: py_split_Nil py_split_Cons)

lemma py_split_space: "is_space c \<Longrightarrow> py_split (c # s) = py_split s"
  by (subst py_split.simps, subst (2) py_split.simps) simp

lemma py_split_word:
  assumes "w \<noteq> []" "\<forall>c\<in>set w. \<not> is_space c" "r = [] \<or> is_space (hd r)"
  shows "py_split (w @ r) = w # py_split r"
proof -
  have d: "dropWhile is_space (w @ r) = w @ r"
    using assms(1,2) by (cases w) auto
  have t: "takeWhile (\<lambda>c. \<not> is_space c) (w @ r) = w"
    using assms(2,3) by (cases r) auto
  have e: "dropWhile (\<lambda>c. \<not> is_space c) (w @ r) = r"
    using assms(2,3) by (cases r) auto
  show ?thesis using assms(1) by (subst py_split.simps) (simp add: d t e)
qed

lemma rstrip_append:
  "rstrip (xs @ ys) = (if \<forall>y\<in>set ys. is_space y then rstrip xs else xs @ rstrip ys)"
  by (simp add: rstrip_def dropWhile_append)

lemma rstrip_word: "w \<noteq> [] \<Longrightarrow> \<not> is_space (last w) \<Longrightarrow> rstrip w = w"
  by (cases w rule: rev_cases) (auto simp: rstrip_def)

lemma collapse_word: "\<forall>c\<in>set w. \<not> is_space c \<Longrightarrow> collapse_ws (w @ r) = w @ collapse_ws r"
  by (induction w) auto

lemma collapse_nonspace_hd:
  "d = [] \<or> \<not> is_space (hd d) \<Longrightarrow> dropWhile is_space (collapse_ws d) = collapse_ws d"
  by (cases d) auto

lemma collapse_drop:
  "dropWhile is_space (collapse_ws s) = collapse_ws (dropWhile is_space s)"
proof (cases s)
  case (Cons c cs)
  define d where "d = dropWhile is_space cs"
  have "d = [] \<or> \<not> is_space (hd d)"
    unfolding d_def using hd_dropWhile[of is_space cs] by blast
  then have "dropWhile is_space (collapse_ws d) = collapse_ws d"
    by (rule collapse_nonspace_hd)
  then show ?thesis
    using Cons by (simp add: d_def is_space_def code_def)
qed simp

lemma collapse_eq_Nil: "collapse_ws s = [] \<longleftrightarrow> s = []"
  by (cases s) auto

lemma collapse_all_space:
  assumes "dropWhile is_space r = []"
  shows "\<forall>c\<in>set (collapse_ws r). is_space c"
proof -
  have "dropWhile is_space (collapse_ws r) = collapse_ws []"
    using collapse_drop[of r] assms by (simp only:)
  then have "dropWhile is_space (collapse_ws r) = []" by simp
  then show ?thesis by (simp only: dropWhile_eq_Nil_conv)
qed

lemma rstrip_keep: "\<exists>y\<in>set ys. \<not> is_space y \<Longrightarrow> rstrip (xs @ ys) = xs @ rstrip ys"
  by (auto simp: rstrip_append)

lemma strip_step:
  assumes wne: "w \<noteq> []" and wns: "\<forall>c\<in>set w. \<not> is_space c"
    and r2: "r2 = [] \<or> is_space (hd r2)"
    and IH: "py_strip (collapse_ws r2) = py_join '' '' (py_split r2)"
  shows "rstrip (collapse_ws (w @ r2)) = py_join '' '' (w # py_split r2)"
proof -
  define r3 where "r3 = dropWhile is_space r2"
  have c: "collapse_ws (w @ r2) = w @ collapse_ws r2"
    using wns by (rule collapse_word)
  have lw: "\<not> is_space (last w)" using wne wns by simp
  have rw: "rstrip w = w" using wne lw by (rule rstrip_word)
  have st: "py_strip (collapse_ws r2) = rstrip (collapse_ws r3)"
    unfolding py_strip_def r3_def by (simp only: collapse_drop)
  show ?thesis
  proof (cases "r3 = []")
    case True
    then have d: "dropWhile is_space r2 = []" by (simp only: r3_def)
    then have "py_split r2 = []" by (rule py_split_Nil)
    moreover have "\<forall>c\<in>set (collapse_ws r2). is_space c"
      using d by (rule collapse_all_space)
    then have "rstrip (w @ collapse_ws r2) = rstrip w"
      by (simp add: rstrip_append)
    ultimately show ?thesis using c rw by simp
  next
    case False
    then have d: "dropWhile is_space r2 \<noteq> []" by (simp only: r3_def not_False_eq_True)
    then have sne: "py_split r2 \<noteq> []" by (simp only: py_split_eq_Nil not_False_eq_True)
    have r2ne: "r2 \<noteq> []" using d by auto
    with r2 have hs: "is_space (hd r2)" by simp
    have c2: "collapse_ws r2 = CHR '' '' # collapse_ws r3"
      using r2ne hs unfolding r3_def by (cases r2) auto
    have "\<not> is_space (hd r3)" using d unfolding r3_def by (rule hd_dropWhile)
    then have "\<not> is_space (hd (collapse_ws r3))" using False by (cases r3) auto
    moreover have "collapse_ws r3 \<noteq> []" using False by (simp add: collapse_eq_Nil)
    ultimately have ex3: "\<exists>y\<in>set (collapse_ws r3). \<not> is_space y"
      using hd_in_set by blast
    then have ex: "\<exists>y\<in>set ('' '' @ collapse_ws r3). \<not> is_space y" by simp
    have "rstrip (w @ ('' '' @ collapse_ws r3)) = w @ rstrip ('' '' @ collapse_ws r3)"
      using ex by (rule rstrip_keep)
    also have "rstrip ('' '' @ collapse_ws r3) = '' '' @ rstrip (collapse_ws r3)"
      using ex3 by (rule rstrip_keep)
    finally have "rstrip (collapse_ws (w @ r2)) = w @ '' '' @ rstrip (collapse_ws r3)"
      using c c2 by simp
    also have "rstrip (collapse_ws r3) = py_join '' '' (py_split r2)"
      using IH st by simp
    finally show ?thesis using sne by (cases "py_split r2") simp_all
  qed
qed

lemma strip_collapse_split: "py_strip (collapse_ws s) = py_join '' '' (py_split s)"
proof (induction s rule: py_split.induct)
  case (1 t)
  define r where "r = dropWhile is_space t"
  have s1: "py_strip (collapse_ws t) = rstrip (collapse_ws r)"
    unfolding py_strip_def r_def by (simp only: collapse_drop)
  show ?case
  proof (cases "r = []")
    case True
    then have "py_split t = []" unfolding r_def by (rule py_split_Nil)
    moreover have "rstrip (collapse_ws r) = []" using True by (simp add: rstrip_def)
    ultimately show ?thesis using s1 by simp
  next
    case False
    define w where "w = takeWhile (\<lambda>c. \<not> is_space c) r"
    define r2 where "r2 = dropWhile (\<lambda>c. \<not> is_space c) r"
    have hd: "\<not> is_space (hd r)" using False unfolding r_def by (rule hd_dropWhile)
    have wne: "w \<noteq> []" using False hd unfolding w_def by (cases r) auto
    have wns: "\<forall>c\<in>set w. \<not> is_space c" unfolding w_def by (auto dest: set_takeWhileD)
    have r: "r = w @ r2" unfolding w_def r2_def by simp
    have h2: "r2 = [] \<or> is_space (hd r2)"
      unfolding r2_def using hd_dropWhile[of "\<lambda>c. \<not> is_space c" r] by blast
    have IH: "py_strip (collapse_ws r2) = py_join '' '' (py_split r2)"
      unfolding r2_def using False unfolding r_def by (rule "1.IH"[OF refl])
    have sp: "py_split t = w # py_split r2"
      unfolding w_def r2_def using False unfolding r_def by (rule py_split_Cons)
    have "rstrip (collapse_ws (w @ r2)) = py_join '' '' (w # py_split r2)"
      using wne wns h2 IH by (rule strip_step)
    then show ?thesis using s1 r sp by simp
  qed
qed

lemma split_words:
  "w \<in> set (py_split s) \<Longrightarrow> w \<noteq> [] \<and> (\<forall>c\<in>set w. \<not> is_space c) \<and> set w \<subseteq> set s"
proof (induction s rule: py_split.induct)
  case (1 t)
  let ?r = "dropWhile is_space t"
  show ?case
  proof (cases "?r = []")
    case True
    then have "py_split t = []" by (rule py_split_Nil)
    with 1(2) show ?thesis by simp
  next
    case False
    then have hd: "\<not> is_space (hd ?r)" by (rule hd_dropWhile)
    have "py_split t = takeWhile (\<lambda>c. \<not> is_space c) ?r
            # py_split (dropWhile (\<lambda>c. \<not> is_space c) ?r)"
      using False by (rule py_split_Cons)
    with 1(2) consider "w = takeWhile (\<lambda>c. \<not> is_space c) ?r"
      | "w \<in> set (py_split (dropWhile (\<lambda>c. \<not> is_space c) ?r))"
      by auto
    then show ?thesis
    proof cases
      case 1
      have "w \<noteq> []" using False hd 1 by (cases ?r) auto
      moreover have "\<forall>c\<in>set w. \<not> is_space c" using 1 by (auto dest: set_takeWhileD)
      moreover have "set w \<subseteq> set t" using 1 by (auto dest!: set_takeWhileD set_dropWhileD)
      ultimately show ?thesis by blast
    next
      case 2
      from "1.IH"[OF refl False 2] show ?thesis
        by (auto dest!: set_dropWhileD)
    qed
  qed
qed

lemma lower_alnum_not_space: "is_lower_alnum c \<Longrightarrow> \<not> is_space c"
  by (auto simp: is_lower_alnum_def is_space_def)

lemma space_is_space: "is_space CHR '' ''"
  by (simp add: is_space_def code_def)

lemma sub_non_alnum_chars: "c \<in> set (sub_non_alnum s) \<Longrightarrow> is_lower_alnum c \<or> is_space c"
  by (auto simp: sub_non_alnum_def space_is_space split: if_splits)

lemma normalize_words: "clean_words (py_split (sub_non_alnum s))"
  unfolding clean_words_def
proof
  fix w assume w: "w \<in> set (py_split (sub_non_alnum s))"
  from split_words[OF w] have "w \<noteq> []" "\<forall>c\<in>set w. \<not> is_space c" "set w \<subseteq> set (sub_non_alnum s)"
    by auto
  then show "w \<noteq> [] \<and> (\<forall>c\<in>set w. is_lower_alnum c)"
    using sub_non_alnum_chars by blast
qed

lemma join_chars: "c \<in> set (py_join sep ws) \<Longrightarrow> c \<in> set sep \<or> (\<exists>w\<in>set ws. c \<in> set w)"
  by (induction sep ws rule: py_join.induct) auto

lemma join_hd: "ws \<noteq> [] \<Longrightarrow> hd ws \<noteq> [] \<Longrightarrow> hd (py_join sep ws) = hd (hd ws)"
  by (induction sep ws rule: py_join.induct) auto

lemma join_eq_Nil: "\<forall>w\<in>set ws. w \<noteq> [] \<Longrightarrow> py_join sep ws = [] \<longleftrightarrow> ws = []"
  by (induction sep ws rule: py_join.induct) auto

lemma join_last: "ws \<noteq> [] \<Longrightarrow> \<forall>w\<in>set ws. w \<noteq> [] \<Longrightarrow> last (py_join sep ws) = last (last ws)"
proof (induction sep ws rule: py_join.induct)
  case (3 sep w v ws)
  have "py_join sep (v # ws) \<noteq> []" using 3(3) join_eq_Nil[of "v # ws" sep] by simp
  then show ?case using 3 by simp
qed auto

lemma join_Cons: "py_join sep (w # ws) = (if ws = [] then w else w @ sep @ py_join sep ws)"
  by (cases ws) auto

lemma split_join:
  "\<forall>w\<in>set ws. w \<noteq> [] \<and> (\<forall>c\<in>set w. \<not> is_space c) \<Longrightarrow> py_split (py_join '' '' ws) = ws"
proof (induction ws)
  case Nil
  show ?case by (simp add: py_split_Nil)
next
  case (Cons w ws)
  have w: "w \<noteq> []" "\<forall>c\<in>set w. \<not> is_space c" using Cons.prems by auto
  show ?case
  proof (cases "ws = []")
    case True
    have "py_split (w @ []) = w # py_split []" by (rule py_split_word[OF w]) simp
    then show ?thesis using True by (simp add: py_split_Nil)
  next
    case False
    have "py_split (w @ CHR '' '' # py_join '' '' ws) = w # py_split (CHR '' '' # py_join '' '' ws)"
      by (rule py_split_word[OF w]) (simp add: space_is_space)
    also have "py_split (CHR '' '' # py_join '' '' ws) = py_split (py_join '' '' ws)"
      by (rule py_split_space[OF space_is_space])
    also have "\<dots> = ws" using Cons by simp
    finally show ?thesis using False by (simp add: join_Cons)
  qed
qed

lemma replace_absent: "old \<noteq> [] \<Longrightarrow> hd old \<notin> set s \<Longrightarrow> py_replace old new s = s"
proof (induction s)
  case Nil
  then show ?case by (subst py_replace.simps) simp
next
  case (Cons a s)
  have "\<not> prefix old (a # s)"
    using Cons.prems by (cases old) (auto simp: prefix_Cons)
  then show ?case using Cons by (subst py_replace.simps) simp
qed

lemma lower_char_id: "is_lower_alnum c \<or> c = CHR '' '' \<Longrightarrow> lower_char c = c"
  by (auto simp: lower_char_def is_lower_alnum_def code_def)

lemma normalize_fixed:
  assumes "clean_words ws"
  shows "normalize_text (py_join '' '' ws) = py_join '' '' ws"
proof -
  let ?t = "py_join '' '' ws"
  have ch: "\<forall>c\<in>set ?t. is_lower_alnum c \<or> c = CHR '' ''"
    using assms join_chars[of _ "'' ''" ws] by (fastforce simp: clean_words_def)
  have l: "lower ?t = ?t"
    unfolding lower_def using ch by (simp add: map_idI lower_char_id)
  have "CHR ''.'' \<notin> set ?t"
    using ch by (auto simp: is_lower_alnum_def code_def)
  then have r: "py_replace ''.pdf'' [] ?t = ?t" by (simp add: replace_absent)
  have s: "sub_non_alnum ?t = ?t"
    unfolding sub_non_alnum_def using ch by (auto intro!: map_idI)
  have "py_split ?t = ws"
    using assms by (intro split_join) (auto simp: clean_words_def lower_alnum_not_space)
  then show ?thesis by (simp add: normalize_text_def l r s)
qed

lemma adjacent_spaces_append:
  "adjacent_spaces (u @ v) \<longleftrightarrow> adjacent_spaces u \<or> adjacent_spaces v
     \<or> (u \<noteq> [] \<and> v \<noteq> [] \<and> last u = CHR '' '' \<and> hd v = CHR '' '')"
proof (induction u)
  case Nil
  show ?case by simp
next
  case (Cons a u)
  show ?case
  proof (cases u)
    case Nil
    then show ?thesis by (cases v) auto
  next
    case (Cons b r)
    with Cons.IH show ?thesis by auto
  qed
qed

lemma no_space_no_adjacent: "CHR '' '' \<notin> set w \<Longrightarrow> \<not> adjacent_spaces w"
  by (induction w rule: adjacent_spaces.induct) auto

lemma adjacent_spaces_nth:
  "adjacent_spaces s \<longleftrightarrow> (\<exists>i. Suc i < length s \<and> s ! i = CHR '' '' \<and> s ! Suc i = CHR '' '')"
proof (induction s rule: adjacent_spaces.induct)
  case (1 a b r)
  show ?case
  proof
    assume "adjacent_spaces (a # b # r)"
    then consider "a = CHR '' '' \<and> b = CHR '' ''" | "adjacent_spaces (b # r)" by auto
    then show "\<exists>i. Suc i < length (a # b # r) \<and> (a # b # r) ! i = CHR '' '' \<and> (a # b # r) ! Suc i = CHR '' ''"
    proof cases
      case 1 then show ?thesis by (intro exI[of _ 0]) simp
    next
      case 2
      with 1 obtain i where "Suc i < length (b # r)" "(b # r) ! i = CHR '' ''" "(b # r) ! Suc i = CHR '' ''"
        by blast
      then show ?thesis by (intro exI[of _ "Suc i"]) simp
    qed
  next
    assume "\<exists>i. Suc i < length (a # b # r) \<and> (a # b # r) ! i = CHR '' '' \<and> (a # b # r) ! Suc i = CHR '' ''"
    then obtain i where i: "Suc i < length (a # b # r)" "(a # b # r) ! i = CHR '' ''" "(a # b # r) ! Suc i = CHR '' ''"
      by blast
    show "adjacent_spaces (a # b # r)"
    proof (cases i)
      case 0 with i show ?thesis by simp
    next
      case (Suc j)
      with i have "Suc j < length (b # r) \<and> (b # r) ! j = CHR '' '' \<and> (b # r) ! Suc j = CHR '' ''" by simp
      with 1 show ?thesis by auto
    qed
  qed
qed auto

lemma join_no_adjacent:
  "\<forall>w\<in>set ws. w \<noteq> [] \<and> CHR '' '' \<notin> set w \<Longrightarrow> \<not> adjacent_spaces (py_join '' '' ws)"
proof (induction "'' ''" ws rule: py_join.induct)
  case 1 show ?case by simp
next
  case (2 w) then show ?case by (simp add: no_space_no_adjacent)
next
  case (3 w v ws)
  have a: "\<not> adjacent_spaces (py_join '' '' (v # ws))" using 3 by simp
  have h: "hd (py_join '' '' (v # ws)) = hd v" using 3(2) by (simp add: join_hd)
  have hv: "hd v \<noteq> CHR '' ''" using 3(2) by (cases v) auto
  have lw: "last w \<noteq> CHR '' ''" using 3(2) by (cases w rule: rev_cases) auto
  have nw: "\<not> adjacent_spaces w" using 3(2) by (simp add: no_space_no_adjacent)
  have jn: "py_join '' '' (v # ws) \<noteq> []"
    using 3(2) join_eq_Nil[of "v # ws" "'' ''"] by simp
  have b: "\<not> adjacent_spaces ('' '' @ py_join '' '' (v # ws))"
    using a h hv by (subst adjacent_spaces_append) simp
  have "\<not> adjacent_spaces (w @ ('' '' @ py_join '' '' (v # ws)))"
    using nw lw b by (subst adjacent_spaces_append) simp
  then show ?case by (simp only: py_join.simps simp_thms)
qed


subsection \<open>Claims about the normalizer\<close>

text \<open>
  C5, as the specification states it: \<open>normalize_text\<close> equals the reference that strips
  a trailing \<^verbatim>\<open>.pdf\<close> only. This fails: \<^verbatim>\<open>text.replace('.pdf', '')\<close> removes the
  occurrence inside \<^verbatim>\<open>x.pdfs\<close>, the reference keeps it.
\<close>

theorem normalize_text_suffix_counterexample:
  "normalize_text ''x.pdfs'' = ''xs'' \<and> normalize_ref ''x.pdfs'' = ''x pdfs'' \<and>
   normalize_text ''x.pdfs'' \<noteq> normalize_ref ''x.pdfs''"
proof -
  have "normalize_text ''x.pdfs'' = ''xs''"
    by code_simp
  moreover have "normalize_ref ''x.pdfs'' = ''x pdfs''"
    by code_simp
  ultimately show ?thesis by simp
qed

text \<open>
  C5, amended: for every input string \<open>normalize_text\<close> equals the reference that
  lower-cases, removes every occurrence of the literal \<^verbatim>\<open>.pdf\<close>, replaces every
  character outside \<^verbatim>\<open>[a-z0-9\s]\<close> with a space, collapses every run of whitespace to
  one space and trims.
\<close>

theorem normalize_text_refines_ref_all: "normalize_text x = normalize_ref_all x"
  by (simp add: normalize_text_def normalize_ref_all_def strip_collapse_split)

theorem normalize_text_refines_ref_all_witness:
  "normalize_text ''My  Paper.PDF (v2).pdf'' = ''my paper v2'' \<and>
   normalize_ref_all ''My  Paper.PDF (v2).pdf'' = ''my paper v2''"
proof -
  have "normalize_text ''My  Paper.PDF (v2).pdf'' = ''my paper v2''"
    by code_simp
  then show ?thesis
    using normalize_text_refines_ref_all [of "''My  Paper.PDF (v2).pdf''"] by simp
qed

text \<open>
  C9: \<open>normalize_text\<close> is idempotent.
\<close>

theorem normalize_text_idempotent: "normalize_text (normalize_text x) = normalize_text x"
proof -
  have "clean_words (py_split (sub_non_alnum (py_replace ''.pdf'' [] (lower x))))"
    by (rule normalize_words)
  then show ?thesis
    using normalize_fixed by (simp add: normalize_text_def)
qed

theorem normalize_text_idempotent_witness:
  "normalize_text ''Smith, J. (2019).pdf'' = ''smith j 2019'' \<and>
   normalize_text (normalize_text ''Smith, J. (2019).pdf'') = ''smith j 2019''"
proof -
  have "normalize_text ''Smith, J. (2019).pdf'' = ''smith j 2019''"
    by code_simp
  then show ?thesis
    using normalize_text_idempotent [of "''Smith, J. (2019).pdf''"] by simp
qed

text \<open>
  C10: the output of \<open>normalize_text\<close> consists of lower-case ASCII letters, digits and
  spaces only (so it has no upper-case letter and no punctuation), it neither starts nor
  ends with whitespace, and it has no two spaces in a row.
\<close>

theorem normalize_text_shape:
  "(\<forall>c\<in>set (normalize_text x). is_lower_alnum c \<or> c = CHR '' '') \<and>
   (normalize_text x \<noteq> [] \<longrightarrow>
      \<not> is_space (hd (normalize_text x)) \<and> \<not> is_space (last (normalize_text x))) \<and>
   (\<forall>i. Suc i < length (normalize_text x) \<longrightarrow>
      \<not> (normalize_text x ! i = CHR '' '' \<and> normalize_text x ! Suc i = CHR '' ''))"
proof -
  define ws where "ws = py_split (sub_non_alnum (py_replace ''.pdf'' [] (lower x)))"
  have n: "normalize_text x = py_join '' '' ws" by (simp add: normalize_text_def ws_def)
  have cw: "clean_words ws" unfolding ws_def by (rule normalize_words)
  then have ne: "\<forall>w\<in>set ws. w \<noteq> []" by (simp add: clean_words_def)
  have ns: "\<forall>w\<in>set ws. \<forall>c\<in>set w. \<not> is_space c"
    using cw by (auto simp: clean_words_def lower_alnum_not_space)
  have chars: "\<forall>c\<in>set (py_join '' '' ws). is_lower_alnum c \<or> c = CHR '' ''"
    using cw join_chars[of _ "'' ''" ws] by (fastforce simp: clean_words_def)
  have ends: "\<not> is_space (hd (py_join '' '' ws)) \<and> \<not> is_space (last (py_join '' '' ws))"
    if "py_join '' '' ws \<noteq> []"
  proof -
    from that have wne: "ws \<noteq> []" by auto
    then have "hd ws \<in> set ws" "last ws \<in> set ws" by simp_all
    then have "hd ws \<noteq> []" "\<not> is_space (hd (hd ws))" "\<not> is_space (last (last ws))"
      using ne ns by (auto simp: hd_in_set last_in_set)
    then show ?thesis using wne ne by (simp add: join_hd join_last)
  qed
  have "\<forall>w\<in>set ws. w \<noteq> [] \<and> CHR '' '' \<notin> set w"
    using ne ns space_is_space by auto
  then have "\<not> adjacent_spaces (py_join '' '' ws)" by (rule join_no_adjacent)
  then have adj: "\<forall>i. Suc i < length (py_join '' '' ws) \<longrightarrow>
      \<not> (py_join '' '' ws ! i = CHR '' '' \<and> py_join '' '' ws ! Suc i = CHR '' '')"
    by (simp add: adjacent_spaces_nth)
  show ?thesis unfolding n using chars ends adj by blast
qed

theorem normalize_text_shape_witness:
  "normalize_text ''  A_Study: 2019 (Final).PDF '' = ''a study 2019 final'' \<and>
   list_all (\<lambda>c. is_lower_alnum c \<or> c = CHR '' '') ''a study 2019 final'' \<and>
   \<not> is_space (hd ''a study 2019 final'') \<and> \<not> is_space (last ''a study 2019 final'')"
proof -
  have "normalize_text ''  A_Study: 2019 (Final).PDF '' = ''a study 2019 final''"
    by code_simp
  then show ?thesis
    using normalize_text_shape [of "''  A_Study: 2019 (Final).PDF ''"]
    by (simp add: list_all_iff)
qed

section \<open>Properties of the year extraction\<close>

lemma digit_word: "is_digit c \<Longrightarrow> is_word_char c"
  by (auto simp: is_digit_def is_word_char_def)

lemma one_two_word: "is_word_char CHR ''1''" "is_word_char CHR ''2''"
  by (simp_all add: is_word_char_def code_def)

lemma match_year_here: "match_year prev s = year_here prev s"
proof (induction prev s rule: match_year.induct)
  case (1 prev a b c d rest)
  have nx: "word_boundary (Some d) (next_char rest) = (rest = [] \<or> \<not> is_word_char (hd rest))"
    if "is_digit d"
    using that digit_word[of d] by (cases rest) (auto simp: word_boundary_def next_char_def)
  have pv: "word_boundary prev (Some a) = (case prev of None \<Rightarrow> True | Some p \<Rightarrow> \<not> is_word_char p)"
    if "a = CHR ''1'' \<or> a = CHR ''2''"
    using that one_two_word by (cases prev) (auto simp: word_boundary_def)
  show ?case
    using nx pv by (cases rest) (auto simp: year_here_def year_token_def)
qed (auto simp: year_here_def)

lemma year_at_0: "year_at s 0 = year_here None s"
  by (auto simp: year_at_def year_here_def)

lemma year_from_Suc: "year_from prev (c # cs) (Suc i) = year_from (Some c) cs i"
  by (cases i) (simp_all add: year_from_def)

lemma year_from_Nil: "\<not> year_from prev [] i"
  by (cases i) (simp_all add: year_from_def year_here_def)

lemma year_from_step:
  assumes "\<not> year_from prev (c # cs) 0"
  shows "(\<exists>i. year_from prev (c # cs) i \<and> (\<forall>j<i. \<not> year_from prev (c # cs) j) \<and> P i)
     \<longleftrightarrow> (\<exists>k. year_from (Some c) cs k \<and> (\<forall>j<k. \<not> year_from (Some c) cs j) \<and> P (Suc k))"
    (is "?L \<longleftrightarrow> ?R")
proof
  assume ?L
  then obtain i where i: "year_from prev (c # cs) i" "\<forall>j<i. \<not> year_from prev (c # cs) j" "P i"
    by blast
  from i(1) assms obtain k where k: "i = Suc k" by (cases i) auto
  have "year_from (Some c) cs k" using i(1) k by (simp add: year_from_Suc)
  moreover have "\<forall>j<k. \<not> year_from (Some c) cs j"
  proof (intro allI impI)
    fix j assume "j < k"
    then have "Suc j < i" using k by simp
    then have "\<not> year_from prev (c # cs) (Suc j)" using i(2) by blast
    then show "\<not> year_from (Some c) cs j" by (simp add: year_from_Suc)
  qed
  ultimately show ?R using i(3) k by blast
next
  assume ?R
  then obtain k where k: "year_from (Some c) cs k" "\<forall>j<k. \<not> year_from (Some c) cs j" "P (Suc k)"
    by blast
  have "year_from prev (c # cs) (Suc k)" using k(1) by (simp add: year_from_Suc)
  moreover have "\<forall>j<Suc k. \<not> year_from prev (c # cs) j"
  proof (intro allI impI)
    fix j assume j: "j < Suc k"
    show "\<not> year_from prev (c # cs) j"
      using assms k(2) j by (cases j) (auto simp: year_from_Suc)
  qed
  ultimately show ?L using k(3) by blast
qed

lemma re_search_year_None: "re_search_year prev s = None \<longleftrightarrow> (\<forall>i. \<not> year_from prev s i)"
proof (induction prev s rule: re_search_year.induct)
  case (1 prev)
  show ?case by (simp add: year_from_Nil)
next
  case (2 prev c cs)
  show ?case
  proof (cases "match_year prev (c # cs)")
    case True
    then have "year_from prev (c # cs) 0" by (simp add: year_from_def match_year_here)
    with True show ?thesis by auto
  next
    case False
    then have n0: "\<not> year_from prev (c # cs) 0" by (simp add: year_from_def match_year_here)
    have "(\<forall>i. \<not> year_from prev (c # cs) i) \<longleftrightarrow> (\<forall>i. \<not> year_from (Some c) cs i)"
    proof
      assume a: "\<forall>i. \<not> year_from prev (c # cs) i"
      show "\<forall>i. \<not> year_from (Some c) cs i"
        using a year_from_Suc[of prev c cs] by blast
    next
      assume a: "\<forall>i. \<not> year_from (Some c) cs i"
      show "\<forall>i. \<not> year_from prev (c # cs) i"
      proof
        fix i show "\<not> year_from prev (c # cs) i"
          using n0 a year_from_Suc[of prev c cs] by (cases i) auto
      qed
    qed
    with False 2 show ?thesis by simp
  qed
qed

lemma re_search_year_Some:
  "re_search_year prev s = Some y \<longleftrightarrow>
     (\<exists>i. year_from prev s i \<and> (\<forall>j<i. \<not> year_from prev s j) \<and> y = take 4 (drop i s))"
proof (induction prev s arbitrary: y rule: re_search_year.induct)
  case (1 prev)
  show ?case by (simp add: year_from_Nil)
next
  case (2 prev c cs)
  show ?case
  proof (cases "match_year prev (c # cs)")
    case True
    then have y0: "year_from prev (c # cs) 0" by (simp add: year_from_def match_year_here)
    show ?thesis
    proof
      assume "re_search_year prev (c # cs) = Some y"
      with True have "y = take 4 (drop 0 (c # cs))" by auto
      with y0 show "\<exists>i. year_from prev (c # cs) i \<and> (\<forall>j<i. \<not> year_from prev (c # cs) j)
          \<and> y = take 4 (drop i (c # cs))"
        by blast
    next
      assume "\<exists>i. year_from prev (c # cs) i \<and> (\<forall>j<i. \<not> year_from prev (c # cs) j)
          \<and> y = take 4 (drop i (c # cs))"
      then obtain i where i: "year_from prev (c # cs) i" "\<forall>j<i. \<not> year_from prev (c # cs) j"
          "y = take 4 (drop i (c # cs))"
        by blast
      have "i = 0" using i(2) y0 by (cases i) auto
      with i(3) True show "re_search_year prev (c # cs) = Some y" by simp
    qed
  next
    case False
    then have n0: "\<not> year_from prev (c # cs) 0" by (simp add: year_from_def match_year_here)
    have IH: "re_search_year (Some c) cs = Some y \<longleftrightarrow>
       (\<exists>i. year_from (Some c) cs i \<and> (\<forall>j<i. \<not> year_from (Some c) cs j) \<and> y = take 4 (drop i cs))"
      using 2[OF False] .
    have "(\<exists>i. year_from prev (c # cs) i \<and> (\<forall>j<i. \<not> year_from prev (c # cs) j)
             \<and> y = take 4 (drop i (c # cs)))
       \<longleftrightarrow> (\<exists>k. year_from (Some c) cs k \<and> (\<forall>j<k. \<not> year_from (Some c) cs j)
             \<and> y = take 4 (drop (Suc k) (c # cs)))"
      using n0 by (rule year_from_step)
    with False IH show ?thesis by simp
  qed
qed

lemma year_from_at: "year_from None t i = year_at t i"
proof (cases i)
  case 0
  then show ?thesis by (simp add: year_from_def year_at_0)
next
  case (Suc j)
  show ?thesis
  proof (cases "i + 4 \<le> length t")
    case True
    then have "drop i t ! 4 = t ! (i + 4)" if "i + 4 < length t" using that by simp
    moreover have "length (drop i t) = 4 \<longleftrightarrow> i + 4 = length t" using True by auto
    ultimately show ?thesis
      using True Suc by (auto simp: year_from_def year_at_def year_here_def)
  next
    case False
    then show ?thesis using Suc by (auto simp: year_from_def year_at_def year_here_def)
  qed
qed

lemma extract_year_nonempty: "extract_year t = Some y \<Longrightarrow> y \<noteq> []"
proof -
  have "re_search_year prev s = Some y \<Longrightarrow> y \<noteq> []" for prev s
    by (induction prev s rule: re_search_year.induct) (auto split: if_splits)
  then show "extract_year t = Some y \<Longrightarrow> y \<noteq> []" by (simp add: extract_year_def)
qed

text \<open>
  What the search computes: the token at the first index where \<open>year_at\<close> holds, and
  none when it holds nowhere.
\<close>

lemma extract_year_search:
  "(extract_year t = None \<longleftrightarrow> (\<forall>i. \<not> year_at t i)) \<and>
   (extract_year t = Some y \<longleftrightarrow>
      (\<exists>i. year_at t i \<and> (\<forall>j<i. \<not> year_at t j) \<and> y = take 4 (drop i t)))"
  by (simp add: extract_year_def re_search_year_None re_search_year_Some year_from_at)

subsection \<open>Claim about the year extraction\<close>

text \<open>
  C6: \<open>extract_year\<close> returns the first substring that is a 4-digit number beginning
  with 19 or 20, and none exactly when there is no such substring. The code misses this
  on \<^verbatim>\<open>smith_2019_deep_learning.pdf\<close>: the year token \<^verbatim>\<open>2019\<close> stands at index 6,
  but \<^verbatim>\<open>\b\<close> takes the underscores around it for word characters and the result is
  none. The docstring of \<^verbatim>\<open>extract_year\<close> promises the 4-digit year of the text, and
  \<^verbatim>\<open>normalize_text\<close> treats the underscore as a separator. The year of
  \<^verbatim>\<open>smith_2020_deep_learning.pdf\<close> is lost in the same way, so for a citation of 2019
  the guardrail does not see the mismatch.
\<close>

theorem extract_year_underscore_missed:
  "extract_year ''smith_2019_deep_learning.pdf'' = None \<and>
   year_token (take 4 (drop 6 ''smith_2019_deep_learning.pdf'')) \<and>
   extract_year ''smith_2020_deep_learning.pdf'' = None \<and>
   extract_year ''Smith, J. (2019). Deep Learning Methods'' = Some ''2019'' \<and>
   \<not> year_guardrail (extract_year ''Smith, J. (2019). Deep Learning Methods'')
       (extract_year ''smith_2020_deep_learning.pdf'')"
proof -
  have a: "extract_year ''smith_2019_deep_learning.pdf'' = None"
    by (simp add: extract_year_def word_boundary_def is_word_char_def code_def is_digit_def
        next_char_def)
  have b: "year_token (take 4 (drop 6 ''smith_2019_deep_learning.pdf''))"
    by (simp add: year_token_def is_digit_def code_def)
  have c: "extract_year ''smith_2020_deep_learning.pdf'' = None"
    by (simp add: extract_year_def word_boundary_def is_word_char_def code_def is_digit_def
        next_char_def)
  have d: "extract_year ''Smith, J. (2019). Deep Learning Methods'' = Some ''2019''"
    by (simp add: extract_year_def word_boundary_def is_word_char_def code_def is_digit_def
        next_char_def)
  show ?thesis using a b c d by (simp add: year_guardrail_def truthy_def)
qed

section \<open>Properties of the matcher\<close>

lemma match_step_inv:
  assumes "match_inv tsr pr cs sy best"
  shows "match_inv tsr pr cs sy (match_step tsr pr cs sy best f)"
proof (cases "year_guardrail sy (extract_year f)")
  case True
  then show ?thesis using assms by (simp add: match_step_def)
next
  case False
  define final where "final = of_int (similarity tsr pr cs (normalize_text f)) + tie_bonus (normalize_text f)"
  have lb: "- 1 \<le> snd best"
    using assms by (cases "fst best") (auto simp: match_inv_def)
  show ?thesis
  proof (cases "final > snd best")
    case True
    then have "match_step tsr pr cs sy best f = (Some f, final)"
      using False by (simp add: match_step_def final_def Let_def)
    moreover have "- 1 < final" using True lb by simp
    ultimately show ?thesis using False by (simp add: match_inv_def final_def)
  next
    case F: False
    then have "match_step tsr pr cs sy best f = best"
      using False by (simp add: match_step_def final_def Let_def)
    then show ?thesis using assms by simp
  qed
qed

lemma match_loop_inv:
  "match_inv tsr pr cs sy best \<Longrightarrow> match_inv tsr pr cs sy (foldl (match_step tsr pr cs sy) best files)"
  by (induction files arbitrary: best) (simp_all add: match_step_inv)

lemma match_inv_init: "match_inv tsr pr cs sy (None, - 1)"
  by (simp add: match_inv_def)

lemma match_loop_skipped:
  "\<forall>f\<in>set files. year_guardrail sy (extract_year f) \<Longrightarrow>
   foldl (match_step tsr pr cs sy) best files = best"
  by (induction files arbitrary: best) (simp_all add: match_step_def)

lemma find_best_fst:
  "fst (find_best_local_match tsr pr s files)
     = fst (foldl (match_step tsr pr (normalize_text s) (extract_year s)) (None, - 1) files)"
  by (simp add: find_best_local_match_def Let_def)

lemma find_best_snd:
  "snd (find_best_local_match tsr pr s files)
     = min (py_int (snd (foldl (match_step tsr pr (normalize_text s) (extract_year s)) (None, - 1) files))) 100"
  by (simp add: find_best_local_match_def Let_def)

lemma find_best_inv:
  "match_inv tsr pr (normalize_text s) (extract_year s)
     (foldl (match_step tsr pr (normalize_text s) (extract_year s)) (None, - 1) files)"
  by (rule match_loop_inv[OF match_inv_init])

lemma py_int_minus_one: "py_int (- 1) = - 1"
proof -
  have "\<lceil>(of_int (- 1) :: rat)\<rceil> = - 1" by (rule ceiling_of_int)
  then show ?thesis by (simp add: py_int_def)
qed

lemma py_int_above: "- 1 < x \<Longrightarrow> 0 \<le> py_int x"
  by (cases "0 \<le> x") (simp_all add: py_int_def)

lemma py_int_bonus:
  assumes "0 \<le> b" "b < 1" "- 1 < of_int k + b"
  shows "min (py_int (of_int k + b)) 100 = clamp_0_100 k"
proof (cases "0 \<le> k")
  case True
  then have "0 \<le> (of_int k :: rat) + b" using assms(1) by simp
  moreover have "\<lfloor>of_int k + b\<rfloor> = k" using assms(1,2) by (simp add: floor_unique)
  ultimately show ?thesis using True by (simp add: py_int_def clamp_0_100_def)
next
  case False
  have "(of_int k :: rat) > - 2" using assms(2,3) by linarith
  then have "(of_int k :: rat) > of_int (- 2)" by simp
  then have "k > - 2" by (simp only: of_int_less_iff)
  with False have k: "k = - 1" by simp
  have neg: "\<not> 0 \<le> (of_int k :: rat) + b" using k assms(2) by simp
  have "\<lceil>of_int k + b\<rceil> = 0" using k assms(2,3) by (intro ceiling_unique) simp_all
  then show ?thesis using neg k by (simp add: py_int_def clamp_0_100_def)
qed


subsection \<open>Claims about the matcher\<close>

text \<open>
  C1: if \<open>extract_year\<close> returns a year token for the citation and for a filename, and
  the two tokens differ, \<open>find_best_local_match\<close> does not return that filename, whatever
  the similarity scores and the other candidates are.
\<close>

theorem guardrail_absolute:
  assumes "extract_year s = Some y1" "extract_year f = Some y2" "y1 \<noteq> y2"
  shows "fst (find_best_local_match tsr pr s files) \<noteq> Some f"
proof
  assume a: "fst (find_best_local_match tsr pr s files) = Some f"
  have "match_inv tsr pr (normalize_text s) (extract_year s)
     (foldl (match_step tsr pr (normalize_text s) (extract_year s)) (None, - 1) files)"
    by (rule find_best_inv)
  with a have "\<not> year_guardrail (extract_year s) (extract_year f)"
    by (simp add: find_best_fst match_inv_def)
  moreover have "y1 \<noteq> []" "y2 \<noteq> []"
    using assms(1,2) by (auto dest: extract_year_nonempty)
  ultimately show False using assms by (simp add: year_guardrail_def truthy_def)
qed

theorem guardrail_absolute_witness:
  "extract_year ''Smith (2019) Deep'' = Some ''2019'' \<and>
   extract_year ''smith 2020 deep.pdf'' = Some ''2020'' \<and>
   fst (find_best_local_match stub_ratio stub_ratio ''Smith (2019) Deep''
          [''smith 2020 deep.pdf'', ''smith 2019 deep.pdf'']) \<noteq> Some ''smith 2020 deep.pdf''"
proof -
  have s: "extract_year ''Smith (2019) Deep'' = Some ''2019''"
    by (simp add: extract_year_def word_boundary_def is_word_char_def code_def is_digit_def
        next_char_def)
  have f: "extract_year ''smith 2020 deep.pdf'' = Some ''2020''"
    by (simp add: extract_year_def word_boundary_def is_word_char_def code_def is_digit_def
        next_char_def)
  have "''2019'' \<noteq> ''2020''" by simp
  from guardrail_absolute [OF s f this] s f show ?thesis by simp
qed

text \<open>
  C2, as the specification states it: the confidence is an integer in the range 0..100
  for every input, the empty candidate list included. This fails: for an empty list the
  loop never runs, \<^verbatim>\<open>best_score\<close> keeps its initial value and the confidence is
  \<open>- 1\<close>.
\<close>

theorem confidence_range_counterexample:
  "\<not> (0 \<le> snd (find_best_local_match stub_ratio stub_ratio ''Smith (2019) Deep'' []) \<and>
      snd (find_best_local_match stub_ratio stub_ratio ''Smith (2019) Deep'' []) \<le> 100)"
proof -
  have "\<lceil>(of_int (- 1) :: rat)\<rceil> = - 1" by (rule ceiling_of_int)
  then show ?thesis by (simp add: find_best_local_match_def py_int_def)
qed

text \<open>
  C2, amended: for every citation and every candidate list the confidence is an integer
  in the range -1..100; it is -1 exactly when no filename is returned (as for an empty
  list, or when the guardrail eliminates every candidate), and so it is in 0..100 whenever
  a filename is returned.
\<close>

theorem confidence_range:
  "- 1 \<le> snd (find_best_local_match tsr pr s files) \<and>
   snd (find_best_local_match tsr pr s files) \<le> 100 \<and>
   (snd (find_best_local_match tsr pr s files) = - 1
      \<longleftrightarrow> fst (find_best_local_match tsr pr s files) = None)"
proof -
  define best where
    "best = foldl (match_step tsr pr (normalize_text s) (extract_year s)) (None, - 1) files"
  have inv: "match_inv tsr pr (normalize_text s) (extract_year s) best"
    unfolding best_def by (rule find_best_inv)
  have f: "fst (find_best_local_match tsr pr s files) = fst best"
    unfolding best_def by (rule find_best_fst)
  have c: "snd (find_best_local_match tsr pr s files) = min (py_int (snd best)) 100"
    unfolding best_def by (rule find_best_snd)
  show ?thesis
  proof (cases "fst best")
    case None
    then have "snd best = - 1" using inv by (simp add: match_inv_def)
    then show ?thesis using None f c by (simp add: py_int_minus_one)
  next
    case (Some g)
    then have "- 1 < snd best" using inv by (simp add: match_inv_def)
    then have "0 \<le> py_int (snd best)" by (rule py_int_above)
    then show ?thesis using Some f c by simp
  qed
qed

theorem confidence_range_witness:
  "find_best_local_match stub_ratio stub_ratio ''Smith (2019) Deep Learning''
     [''smith 2020 deep.pdf'', ''smith 2019 deep.pdf''] = (Some ''smith 2019 deep.pdf'', 50) \<and>
   - 1 \<le> (50 :: int) \<and> (50 :: int) \<le> 100 \<and> (50 :: int) \<noteq> - 1"
proof -
  have "find_best_local_match stub_ratio stub_ratio ''Smith (2019) Deep Learning''
     [''smith 2020 deep.pdf'', ''smith 2019 deep.pdf''] = (Some ''smith 2019 deep.pdf'', 50)"
    by code_simp
  then show ?thesis
    using confidence_range [of stub_ratio stub_ratio "''Smith (2019) Deep Learning''"
        "[''smith 2020 deep.pdf'', ''smith 2019 deep.pdf'']"]
    by simp
qed

text \<open>
  C3: for an empty candidate list \<open>find_best_local_match\<close> returns no filename and the
  confidence \<open>- 1\<close>, which no selected candidate can have; the same holds when the year
  guardrail eliminates every candidate. The function is total: none of its steps raises.
\<close>

theorem no_candidate_sentinel:
  "find_best_local_match tsr pr s [] = (None, - 1) \<and>
   ((\<forall>f\<in>set files. year_guardrail (extract_year s) (extract_year f)) \<longrightarrow>
      find_best_local_match tsr pr s files = (None, - 1))"
proof -
  have "find_best_local_match tsr pr s files = (None, - 1)"
    if "\<forall>f\<in>set files. year_guardrail (extract_year s) (extract_year f)" for files
    using match_loop_skipped[OF that]
    by (simp add: find_best_local_match_def Let_def py_int_minus_one)
  from this[of "[]"] this[of files] show ?thesis by simp
qed

theorem no_candidate_sentinel_witness:
  "year_guardrail (extract_year ''Smith (2019) Deep'') (extract_year ''smith 2020 deep.pdf'') \<and>
   year_guardrail (extract_year ''Smith (2019) Deep'') (extract_year ''jones 1999.pdf'') \<and>
   find_best_local_match stub_ratio stub_ratio ''Smith (2019) Deep''
     [''smith 2020 deep.pdf'', ''jones 1999.pdf''] = (None, - 1) \<and>
   find_best_local_match stub_ratio stub_ratio ''Smith (2019) Deep'' [] = (None, - 1)"
proof -
  have g1: "year_guardrail (extract_year ''Smith (2019) Deep'') (extract_year ''smith 2020 deep.pdf'')"
    by (simp add: year_guardrail_def truthy_def extract_year_def word_boundary_def
        is_word_char_def code_def is_digit_def next_char_def)
  have g2: "year_guardrail (extract_year ''Smith (2019) Deep'') (extract_year ''jones 1999.pdf'')"
    by (simp add: year_guardrail_def truthy_def extract_year_def word_boundary_def
        is_word_char_def code_def is_digit_def next_char_def)
  from g1 g2 have "\<forall>f\<in>set [''smith 2020 deep.pdf'', ''jones 1999.pdf''].
      year_guardrail (extract_year ''Smith (2019) Deep'') (extract_year f)"
    by simp
  with no_candidate_sentinel [of stub_ratio stub_ratio "''Smith (2019) Deep''"
      "[''smith 2020 deep.pdf'', ''jones 1999.pdf'']"] g1 g2
  show ?thesis by blast
qed

text \<open>
  C4, as the specification states it: the tie-break bonus of every candidate is below 1
  and the confidence is the winner's similarity without the bonus. This fails for a
  filename whose normalized form has 1000 characters: its bonus is 1, and with a
  similarity of 50 the confidence is 51.
\<close>

theorem tie_bonus_counterexample:
  "tie_bonus (normalize_text (replicate 1000 CHR ''a'')) = 1 \<and>
   clamp_0_100 (similarity stub_ratio stub_ratio (normalize_text ''x'')
     (normalize_text (replicate 1000 CHR ''a''))) = 50 \<and>
   find_best_local_match stub_ratio stub_ratio ''x'' [replicate 1000 CHR ''a'']
     = (Some (replicate 1000 CHR ''a''), 51)"
proof -
  define F where "F = replicate 1000 CHR ''a''"
  have len: "length F = 1000" by (simp add: F_def)
  have "is_lower_alnum CHR ''a''" by (simp add: is_lower_alnum_def code_def)
  then have "clean_words [F]" using len by (auto simp: clean_words_def F_def)
  then have "normalize_text (py_join '' '' [F]) = py_join '' '' [F]" by (rule normalize_fixed)
  then have nF: "normalize_text F = F" by simp
  have nx: "normalize_text ''x'' = ''x''" by code_simp
  have "''x'' \<noteq> F" using len by auto
  then have sim: "similarity stub_ratio stub_ratio ''x'' F = 50"
    using len by (simp add: similarity_def stub_ratio_def)
  have bonus: "tie_bonus F = 1" using len by (simp add: tie_bonus_def)
  have yx: "extract_year ''x'' = None" by (simp add: extract_year_def)
  have step: "match_step stub_ratio stub_ratio ''x'' None (None, - 1) F = (Some F, 51)"
    by (simp add: match_step_def nF sim bonus year_guardrail_def truthy_def)
  have "py_int 51 = 51"
  proof -
    have "\<lfloor>(of_int 51 :: rat)\<rfloor> = 51" by (rule floor_of_int)
    then show ?thesis by (simp add: py_int_def)
  qed
  then have "find_best_local_match stub_ratio stub_ratio ''x'' [F] = (Some F, 51)"
    by (simp add: find_best_local_match_def nx yx step)
  then show ?thesis using bonus sim nF nx by (simp add: F_def clamp_0_100_def)
qed

text \<open>
  C4, amended: for every candidate whose normalized filename has fewer than 1000
  characters the tie-break bonus is strictly less than 1 point, and when such a candidate
  is the one returned the confidence is its similarity score without the bonus, clamped
  to the integer range 0..100.
\<close>

theorem tie_bonus_excluded:
  assumes "length (normalize_text f) < 1000"
  shows "tie_bonus (normalize_text f) < 1 \<and>
    (fst (find_best_local_match tsr pr s files) = Some f \<longrightarrow>
       snd (find_best_local_match tsr pr s files)
         = clamp_0_100 (similarity tsr pr (normalize_text s) (normalize_text f)))"
proof -
  have b1: "tie_bonus (normalize_text f) < 1"
    using assms by (simp add: tie_bonus_def)
  have b0: "0 \<le> tie_bonus (normalize_text f)" by (simp add: tie_bonus_def)
  define best where
    "best = foldl (match_step tsr pr (normalize_text s) (extract_year s)) (None, - 1) files"
  have inv: "match_inv tsr pr (normalize_text s) (extract_year s) best"
    unfolding best_def by (rule find_best_inv)
  have f: "fst (find_best_local_match tsr pr s files) = fst best"
    unfolding best_def by (rule find_best_fst)
  have c: "snd (find_best_local_match tsr pr s files) = min (py_int (snd best)) 100"
    unfolding best_def by (rule find_best_snd)
  have "snd (find_best_local_match tsr pr s files)
         = clamp_0_100 (similarity tsr pr (normalize_text s) (normalize_text f))"
    if "fst (find_best_local_match tsr pr s files) = Some f"
  proof -
    from that f have "fst best = Some f" by simp
    with inv have s: "snd best = of_int (similarity tsr pr (normalize_text s) (normalize_text f))
        + tie_bonus (normalize_text f)" and l: "- 1 < snd best"
      by (simp_all add: match_inv_def)
    show ?thesis
      unfolding c s using b0 b1 l[unfolded s] by (rule py_int_bonus)
  qed
  with b1 show ?thesis by blast
qed

theorem tie_bonus_excluded_witness:
  "length (normalize_text ''smith 2019 deep.pdf'') < 1000 \<and>
   tie_bonus (normalize_text ''smith 2019 deep.pdf'') < 1 \<and>
   find_best_local_match stub_ratio stub_ratio ''Smith (2019) Deep Learning''
     [''smith 2020 deep.pdf'', ''smith 2019 deep.pdf''] = (Some ''smith 2019 deep.pdf'', 50) \<and>
   clamp_0_100 (similarity stub_ratio stub_ratio (normalize_text ''Smith (2019) Deep Learning'')
     (normalize_text ''smith 2019 deep.pdf'')) = 50"
proof -
  have n: "normalize_text ''smith 2019 deep.pdf'' = ''smith 2019 deep''" by code_simp
  then have l: "length (normalize_text ''smith 2019 deep.pdf'') < 1000" by simp
  have r: "find_best_local_match stub_ratio stub_ratio ''Smith (2019) Deep Learning''
     [''smith 2020 deep.pdf'', ''smith 2019 deep.pdf''] = (Some ''smith 2019 deep.pdf'', 50)"
    by code_simp
  from tie_bonus_excluded [OF l, of stub_ratio stub_ratio "''Smith (2019) Deep Learning''"
      "[''smith 2020 deep.pdf'', ''smith 2019 deep.pdf'']"] l r
  show ?thesis by simp
qed

section \<open>Properties of the result parsing\<close>

lemma and_then_Inr: "and_then m f = Inr y \<longleftrightarrow> (\<exists>v. m = Inr v \<and> f v = Inr y)"
  by (cases m) (simp_all add: and_then_def)

lemma getitem_key_child: "getitem_key v k = Inr w \<Longrightarrow> json_child (Key k) v = Some w"
  by (cases v) (auto split: option.splits)

lemma getitem_0_child:
  "getitem_0 v = Inr w \<Longrightarrow> getitem_key w k = Inr u \<Longrightarrow> json_child (Index 0) v = Some w"
proof (cases v)
  case (JArr xs)
  assume "getitem_0 v = Inr w"
  with JArr show ?thesis by (cases xs) auto
next
  case (JStr s)
  assume "getitem_0 v = Inr w" "getitem_key w k = Inr u"
  with JStr show ?thesis by (cases s) auto
qed auto

lemma candidate_text_at:
  assumes "candidate_text entry = Inr c"
  shows "json_at [Key ''response'', Key ''candidates'', Index 0, Key ''content'',
                  Key ''parts'', Index 0, Key ''text''] entry = Some c"
proof -
  from assms obtain r cs f ct ps p where
    1: "getitem_key entry ''response'' = Inr r" and
    2: "getitem_key r ''candidates'' = Inr cs" and
    3: "getitem_0 cs = Inr f" and
    4: "getitem_key f ''content'' = Inr ct" and
    5: "getitem_key ct ''parts'' = Inr ps" and
    6: "getitem_0 ps = Inr p" and
    7: "getitem_key p ''text'' = Inr c"
    unfolding candidate_text_def and_then_Inr by blast
  note a = getitem_key_child[OF 1] getitem_key_child[OF 2] getitem_0_child[OF 3 4]
    getitem_key_child[OF 4] getitem_key_child[OF 5] getitem_0_child[OF 6 7] getitem_key_child[OF 7]
  show ?thesis by (simp add: a)
qed

lemma clean_candidate_str: "clean_candidate c = Inr s \<Longrightarrow> \<exists>t. c = JStr t \<and> s = strip_fences t"
  by (cases c) auto

lemma dict_get_obj: "dict_get d k = Inr m \<Longrightarrow> \<exists>kvs. d = JObj kvs"
  by (cases d) auto

lemma json_loads_Some: "json_loads loads s = Inr v \<longleftrightarrow> loads s = Some v"
  by (simp add: json_loads_def split: option.splits)

lemma try_body_row_well_formed:
  assumes "try_body loads to_int line = Inr (Inr row)"
  shows "well_formed_response loads line"
proof -
  from assms obtain entry custom_id parts where
    e: "loads line = Some entry" and
    body: "(case parts of
         [] \<Rightarrow> Inl IndexError
       | row_num # rest \<Rightarrow>
           let citation_snippet = (case rest of [] \<Rightarrow> [] | s # _ \<Rightarrow> s) in
           and_then (has_candidates entry) (\<lambda>ok.
             if ok then
               and_then (candidate_text entry) (\<lambda>candidate.
               and_then (clean_candidate candidate) (\<lambda>clean_json.
               and_then (json_loads loads clean_json) (\<lambda>data.
               and_then (int_of_str to_int row_num) (\<lambda>row.
               and_then (dict_get data ''methodology'') (\<lambda>methodology.
               and_then (dict_get data ''reason'') (\<lambda>reason.
                 Inr (Inr \<lparr>Row = row, Sheet_Citation_Snippet = citation_snippet,
                            Methodology = methodology, Reason = reason\<rparr>)))))))
             else Inr (Inl row_num))) = Inr (Inr row)"
    unfolding try_body_def and_then_Inr json_loads_Some by blast
  from body obtain row_num rest where p: "parts = row_num # rest"
    by (cases parts) auto
  define snippet where "snippet = (case rest of [] \<Rightarrow> [] | s # _ \<Rightarrow> s)"
  from body obtain ok where
    branch: "(if ok then
               and_then (candidate_text entry) (\<lambda>candidate.
               and_then (clean_candidate candidate) (\<lambda>clean_json.
               and_then (json_loads loads clean_json) (\<lambda>data.
               and_then (int_of_str to_int row_num) (\<lambda>row.
               and_then (dict_get data ''methodology'') (\<lambda>methodology.
               and_then (dict_get data ''reason'') (\<lambda>reason.
                 Inr (Inr \<lparr>Row = row, Sheet_Citation_Snippet = snippet,
                            Methodology = methodology, Reason = reason\<rparr>)))))))
             else Inr (Inl row_num)) = Inr (Inr row)"
    unfolding p snippet_def by (auto simp: Let_def and_then_Inr)
  then have ok by (cases ok) auto
  with branch obtain candidate clean_json data n m where
    c: "candidate_text entry = Inr candidate" and
    cl: "clean_candidate candidate = Inr clean_json" and
    d: "loads clean_json = Some data" and
    g: "dict_get data ''methodology'' = Inr m"
    by (auto simp: and_then_Inr json_loads_Some)
  from clean_candidate_str[OF cl] obtain t where t: "candidate = JStr t" "clean_json = strip_fences t"
    by blast
  from dict_get_obj[OF g] obtain kvs where k: "data = JObj kvs" by blast
  have "response_text entry = Some t"
    using candidate_text_at[OF c] t(1) by (simp add: response_text_def)
  then show ?thesis using e d t(2) k by (simp add: well_formed_response_def)
qed

lemma parse_line_row_well_formed:
  "parse_line loads to_int line = Inr row \<Longrightarrow> well_formed_response loads line"
  using try_body_row_well_formed[of loads to_int line row]
  by (auto simp: parse_line_def split: sum.splits)

lemma parse_loop_from:
  "foldl (parse_step loads to_int) st ls
     = (fst st @ fst (foldl (parse_step loads to_int) ([], []) ls),
        snd st @ snd (foldl (parse_step loads to_int) ([], []) ls))"
proof (induction ls arbitrary: st)
  case Nil
  show ?case by simp
next
  case (Cons l ls)
  have s: "parse_step loads to_int st l
      = (fst st @ fst (parse_step loads to_int ([], []) l),
         snd st @ snd (parse_step loads to_int ([], []) l))"
    by (simp add: parse_step_def split: sum.splits)
  show ?case
    by (simp only: foldl_Cons)
      (subst Cons.IH, subst (3 4) Cons.IH, simp add: s)
qed

lemma parse_lines_append:
  "parse_lines loads to_int (xs @ ys)
     = (fst (parse_lines loads to_int xs) @ fst (parse_lines loads to_int ys),
        snd (parse_lines loads to_int xs) @ snd (parse_lines loads to_int ys))"
  unfolding parse_lines_def foldl_append
  by (rule parse_loop_from)

lemma parse_lines_Cons:
  "parse_lines loads to_int (l # ls)
     = (fst (parse_step loads to_int ([], []) l) @ fst (parse_lines loads to_int ls),
        snd (parse_step loads to_int ([], []) l) @ snd (parse_lines loads to_int ls))"
  unfolding parse_lines_def foldl_Cons
  by (rule parse_loop_from)

text \<open>
  The other direction: a line with a well-formed response, a string \<^verbatim>\<open>custom_id\<close> and a
  row number that \<^verbatim>\<open>int\<close> accepts does give a row, so the predicate is exact.
\<close>

lemma child_getitem_key: "json_child (Key k) v = Some w \<Longrightarrow> getitem_key v k = Inr w"
  by (cases v) auto

lemma child_getitem_0: "json_child (Index 0) v = Some w \<Longrightarrow> getitem_0 v = Inr w"
proof (cases v)
  case (JArr xs)
  assume "json_child (Index 0) v = Some w"
  with JArr show ?thesis by (cases xs) (auto split: if_splits)
qed auto

lemma child_contains: "json_child (Key k) v = Some w \<Longrightarrow> py_contains k v = Inr True"
proof (cases v)
  case (JObj kvs)
  assume "json_child (Key k) v = Some w"
  with JObj have "map_of kvs k = Some w" by simp
  then have "(k, w) \<in> set kvs" by (rule map_of_SomeD)
  then have "k \<in> fst ` set kvs" by force
  with JObj show ?thesis by simp
qed auto

lemma json_at_Cons_Some:
  "json_at (e # p) v = Some c \<longleftrightarrow> (\<exists>w. json_child e v = Some w \<and> json_at p w = Some c)"
  by (simp split: option.splits)

lemma at_candidate_text:
  assumes "json_at [Key ''response'', Key ''candidates'', Index 0, Key ''content'',
                    Key ''parts'', Index 0, Key ''text''] entry = Some c"
  shows "candidate_text entry = Inr c \<and> has_candidates entry = Inr True"
proof -
  from assms obtain r cs f ct ps p where
    1: "json_child (Key ''response'') entry = Some r" and
    2: "json_child (Key ''candidates'') r = Some cs" and
    3: "json_child (Index 0) cs = Some f" and
    4: "json_child (Key ''content'') f = Some ct" and
    5: "json_child (Key ''parts'') ct = Some ps" and
    6: "json_child (Index 0) ps = Some p" and
    7: "json_child (Key ''text'') p = Some c"
    unfolding json_at_Cons_Some json_at.simps(1) by blast
  have "candidate_text entry = Inr c"
    by (simp add: candidate_text_def and_then_def child_getitem_key[OF 1] child_getitem_key[OF 2]
        child_getitem_0[OF 3] child_getitem_key[OF 4] child_getitem_key[OF 5]
        child_getitem_0[OF 6] child_getitem_key[OF 7])
  moreover have "has_candidates entry = Inr True"
    by (simp add: has_candidates_def and_then_def child_contains[OF 1] child_getitem_key[OF 1]
        child_contains[OF 2])
  ultimately show ?thesis by simp
qed

lemma well_formed_line_parsed:
  assumes wf: "well_formed_response loads line"
    and e: "loads line = Some entry"
    and cid: "dict_get entry ''custom_id'' = Inr (JStr cid)"
    and sp: "py_split_once ''::'' cid = row_num # rest"
    and n: "to_int row_num = Some n"
  shows "\<exists>row. parse_line loads to_int line = Inr row \<and> Row row = n"
proof -
  from wf e obtain s data where
    rt: "response_text entry = Some s" and d: "loads (strip_fences s) = Some (JObj data)"
    by (auto simp: well_formed_response_def split: option.splits json.splits)
  from rt have "json_at [Key ''response'', Key ''candidates'', Index 0, Key ''content'',
                    Key ''parts'', Index 0, Key ''text''] entry = Some (JStr s)"
    by (auto simp: response_text_def split: option.splits json.splits)
  then have c: "candidate_text entry = Inr (JStr s)" and h: "has_candidates entry = Inr True"
    using at_candidate_text by blast+
  have "try_body loads to_int line
      = Inr (Inr \<lparr>Row = n, Sheet_Citation_Snippet = (case rest of [] \<Rightarrow> [] | s # _ \<Rightarrow> s),
          Methodology = (case map_of data ''methodology'' of None \<Rightarrow> JNull | Some v \<Rightarrow> v),
          Reason = (case map_of data ''reason'' of None \<Rightarrow> JNull | Some v \<Rightarrow> v)\<rparr>)"
    by (simp add: try_body_def and_then_def json_loads_def int_of_str_def e cid sp n c h d)
  then show ?thesis by (simp add: parse_line_def)
qed

subsection \<open>Claims about the result parsing\<close>

text \<open>
  C7: an output line whose model response is absent, blocked or malformed produces a
  diagnostic and adds no entry to the result table, and the lines before and after it are
  parsed as they are without it: the table is the table of the lines before followed by
  the table of the lines after, and the diagnostic stands between theirs.
\<close>

theorem malformed_line_isolated:
  assumes "\<not> well_formed_response loads line"
  shows "\<exists>d. parse_line loads to_int line = Inl d \<and>
    parse_lines loads to_int (before @ line # after)
      = (fst (parse_lines loads to_int before) @ fst (parse_lines loads to_int after),
         snd (parse_lines loads to_int before) @ d # snd (parse_lines loads to_int after))"
proof -
  obtain d where d: "parse_line loads to_int line = Inl d"
    using assms parse_line_row_well_formed[of loads to_int line]
    by (cases "parse_line loads to_int line") auto
  then have "parse_step loads to_int ([], []) line = ([], [d])"
    by (simp add: parse_step_def)
  then have "parse_lines loads to_int (line # after)
      = (fst (parse_lines loads to_int after), d # snd (parse_lines loads to_int after))"
    by (simp add: parse_lines_Cons)
  then have "parse_lines loads to_int (before @ line # after)
      = (fst (parse_lines loads to_int before) @ fst (parse_lines loads to_int after),
         snd (parse_lines loads to_int before) @ d # snd (parse_lines loads to_int after))"
    by (simp add: parse_lines_append[of loads to_int before "line # after"])
  with d show ?thesis by blast
qed

theorem malformed_line_isolated_witness:
  "\<not> well_formed_response demo_loads ''L5'' \<and>
   parse_line demo_loads demo_int ''L5'' = Inl (GenerationFailed ''5'') \<and>
   map Row (fst (parse_lines demo_loads demo_int [''L7'', ''L5'', ''junk'', ''L3''])) = [7, 3] \<and>
   snd (parse_lines demo_loads demo_int [''L7'', ''L5'', ''junk'', ''L3''])
     = [GenerationFailed ''5'', ParsingError JSONDecodeError]"
proof -
  have w: "\<not> well_formed_response demo_loads ''L5''" by code_simp
  have l: "parse_line demo_loads demo_int ''L5'' = Inl (GenerationFailed ''5'')" by code_simp
  have b: "parse_lines demo_loads demo_int [''L7'']
      = ([\<lparr>Row = 7, Sheet_Citation_Snippet = ''Smith'', Methodology = JStr ''Experimental'',
            Reason = JStr ''Randomised trial''\<rparr>], [])"
    by code_simp
  have a: "parse_lines demo_loads demo_int [''junk'', ''L3'']
      = ([\<lparr>Row = 3, Sheet_Citation_Snippet = ''Jones'', Methodology = JStr ''Experimental'',
            Reason = JStr ''Randomised trial''\<rparr>], [ParsingError JSONDecodeError])"
    by code_simp
  from malformed_line_isolated [OF w, of demo_int "[''L7'']" "[''junk'', ''L3'']"] w l a b
  show ?thesis by simp
qed

text \<open>
  C8: whatever the order of the output lines, the rows that \<^verbatim>\<open>save_results\<close> writes
  to the CSV file are sorted by the integer row identifier in ascending order.
\<close>

theorem result_table_sorted:
  "sorted (map Row (save_results_rows loads to_int output_text))"
  by (simp add: save_results_rows_def)

theorem result_table_sorted_witness:
  "map Row (save_results_rows demo_loads demo_int
      (''L7'' @ [CHR 0x0A] @ ''L5'' @ [CHR 0x0D, CHR 0x0A] @ ''L3'' @ [CHR 0x0A])) = [3, 7] \<and>
   sorted [3, 7 :: int]"
proof -
  have "map Row (save_results_rows demo_loads demo_int
      (''L7'' @ [CHR 0x0A] @ ''L5'' @ [CHR 0x0D, CHR 0x0A] @ ''L3'' @ [CHR 0x0A])) = [3, 7]"
    by code_simp
  then show ?thesis
    using result_table_sorted [of demo_loads demo_int
        "''L7'' @ [CHR 0x0A] @ ''L5'' @ [CHR 0x0D, CHR 0x0A] @ ''L3'' @ [CHR 0x0A]"]
    by simp
qed

end
